theory Spec2Isabelle
  imports Main
begin

section \<open>Data model of the window-toggle coordinator\<close>

text \<open>
  The theory embeds \<^verbatim>\<open>src/internal/operators/windowToggle.ts\<close>, class
  \<^verbatim>\<open>WindowToggleSubscriber\<close>. Objects made with \<^verbatim>\<open>new\<close> are compared by identity in
  the source (\<^verbatim>\<open>indexOf\<close>, \<^verbatim>\<open>===\<close>), so a window (\<^verbatim>\<open>new Subject<T>()\<close>) and a
  handle (\<^verbatim>\<open>new Subscription()\<close>) are represented by a number that is fresh at the time
  the object enters the coordinator's state.
\<close>

datatype subject = Subject nat

datatype subscription = Subscription nat

text \<open>\<^verbatim>\<open>interface WindowContext<T> { window: Subject<T>; subscription: Subscription; }\<close>\<close>

record WindowContext =
  window :: subject
  subscription :: subscription

text \<open>
  Every call the coordinator makes on a collaborator (a window, a handle, the downstream
  \<^verbatim>\<open>destination\<close>) is recorded, in the order the source makes it. The collaborators
  themselves (\<^verbatim>\<open>Subject\<close>, \<^verbatim>\<open>Subscription\<close>, \<^verbatim>\<open>Subscriber\<close>) are not part of the file
  under study. The subscribers of a window can notify the coordinator while a call on the
  window runs: this is modelled for \<^verbatim>\<open>window.next\<close>, which \<^verbatim>\<open>_next\<close> calls inside a loop
  over the array the field refers to (subsection Source values), and not for the other
  calls.
\<close>

datatype ('v, 'e) call =
    WindowNext subject 'v              \<comment> \<open>\<^verbatim>\<open>window.next(value)\<close>\<close>
  | WindowError subject 'e             \<comment> \<open>\<^verbatim>\<open>window.error(err)\<close>\<close>
  | WindowComplete subject             \<comment> \<open>\<^verbatim>\<open>window.complete()\<close>\<close>
  | WindowUnsubscribe subject          \<comment> \<open>\<^verbatim>\<open>window.unsubscribe()\<close>\<close>
  | Unsubscribe subscription           \<comment> \<open>\<^verbatim>\<open>subscription.unsubscribe()\<close>\<close>
  | Add subscription WindowContext     \<comment> \<open>\<^verbatim>\<open>innerSubscription.context = context; subscription.add(innerSubscription)\<close>\<close>
  | DestinationNext subject            \<comment> \<open>\<^verbatim>\<open>this.destination.next(window)\<close>\<close>
  | DestinationError 'e                \<comment> \<open>\<^verbatim>\<open>this.destination.error(err)\<close>\<close>
  | DestinationComplete                \<comment> \<open>\<^verbatim>\<open>this.destination.complete()\<close>\<close>

text \<open>
  An inner subscription, as \<^verbatim>\<open>notifyComplete\<close> receives it: the one of the openings
  stream, or the one of a closing notifier, whose \<^verbatim>\<open>context\<close> property is \<^verbatim>\<open>undefined\<close>
  (\<open>None\<close>) until line 172 assigns it.
\<close>

datatype InnerSubscriber = OpenSubscription | ClosingSubscription "WindowContext option"

text \<open>
  The fields of \<^verbatim>\<open>WindowToggleSubscriber\<close>: \<^verbatim>\<open>contexts\<close> is an array or \<^verbatim>\<open>null\<close>
  (\<open>None\<close>); \<open>isStopped\<close> and \<open>closed\<close> are the flags of the base class; \<open>allocated\<close>
  counts the contexts registered so far and supplies the next fresh identity; \<open>calls\<close> is
  the record of calls made on collaborators.

  The class has one array object, made by the field initialiser of line 83; \<^verbatim>\<open>push\<close> and
  \<^verbatim>\<open>splice\<close> change it in place, and \<^verbatim>\<open>this.contexts = null\<close> only clears the field.
  \<open>array\<close> is the content of that object: it is what a loop that captured the reference
  (\<^verbatim>\<open>const { contexts } = this\<close>) reads, also after the field was set to \<^verbatim>\<open>null\<close>.
  While the field is not \<^verbatim>\<open>null\<close> it refers to this object, so \<open>contexts s = Some cs\<close>
  goes with \<open>array s = cs\<close>.

  \<open>openSubscription\<close> is \<^verbatim>\<open>undefined\<close> (\<open>None\<close>) until the subscribe call of line 90
  has returned.
\<close>

record ('v, 'e) WindowToggleSubscriber =
  contexts :: "WindowContext list option"
  array :: "WindowContext list"
  openSubscription :: "InnerSubscriber option"
  isStopped :: bool
  closed :: bool
  allocated :: nat
  calls :: "('v, 'e) call list"

text \<open>
  A JavaScript \<^verbatim>\<open>TypeError\<close> (a property read on \<^verbatim>\<open>null\<close> or \<^verbatim>\<open>undefined\<close>) is the only
  language-level fault the class can raise by itself. A faulting call returns the fault
  together with the state at the point of the throw.
\<close>

datatype fault = TypeError

type_synonym ('v, 'e) outcome =
  "fault \<times> ('v, 'e) WindowToggleSubscriber + ('v, 'e) WindowToggleSubscriber"

definition state_of :: "('v, 'e) outcome \<Rightarrow> ('v, 'e) WindowToggleSubscriber" where
  "state_of r = (case r of Inl (f, s) \<Rightarrow> s | Inr s \<Rightarrow> s)"

definition perform :: "('v, 'e) call \<Rightarrow> ('v, 'e) WindowToggleSubscriber \<Rightarrow> ('v, 'e) WindowToggleSubscriber" where
  "perform c s = s\<lparr>calls := calls s @ [c]\<rparr>"

definition active :: "('v, 'e) WindowToggleSubscriber \<Rightarrow> WindowContext list" where
  "active s = (case contexts s of None \<Rightarrow> [] | Some cs \<Rightarrow> cs)"

section \<open>The methods of WindowToggleSubscriber\<close>

subsection \<open>Teardown\<close>

text \<open>
  \<^verbatim>\<open>_unsubscribe\<close> (lines 137-149): \<^verbatim>\<open>this.contexts = null\<close>, then the \<^verbatim>\<open>while\<close> loop
  over the captured array.
\<close>

primrec unsubscribe_loop :: "WindowContext list \<Rightarrow> ('v, 'e) WindowToggleSubscriber \<Rightarrow> ('v, 'e) WindowToggleSubscriber" where
  "unsubscribe_loop [] s = s"
| "unsubscribe_loop (context # rest) s =
     unsubscribe_loop rest
       (perform (Unsubscribe (subscription context)) (perform (WindowUnsubscribe (window context)) s))"

definition protected_unsubscribe :: "('v, 'e) WindowToggleSubscriber \<Rightarrow> ('v, 'e) WindowToggleSubscriber" where
  "protected_unsubscribe s =
     (case contexts s of
        None \<Rightarrow> s\<lparr>contexts := None\<rparr>
      | Some cs \<Rightarrow> unsubscribe_loop cs (s\<lparr>contexts := None\<rparr>))"

text \<open>
  Modelled from the spec: the base class \<^verbatim>\<open>Subscriber\<close> (\<^verbatim>\<open>next\<close>, \<^verbatim>\<open>error\<close>,
  \<^verbatim>\<open>complete\<close>, \<^verbatim>\<open>unsubscribe\<close> and the inherited \<^verbatim>\<open>_error\<close>, \<^verbatim>\<open>_complete\<close>) is not
  among the sources. The spec says that cancelling is idempotent, that only one Error or
  Complete transition may ever occur (whichever happens first wins), that the terminal
  transition ends with the notification of the downstream consumer, and that all
  subscriptions are cancelled as part of unwinding.
\<close>

definition unsubscribe :: "('v, 'e) WindowToggleSubscriber \<Rightarrow> ('v, 'e) WindowToggleSubscriber" where
  "unsubscribe s =
     (if closed s then s else protected_unsubscribe (s\<lparr>isStopped := True, closed := True\<rparr>))"

definition super_error :: "'e \<Rightarrow> ('v, 'e) WindowToggleSubscriber \<Rightarrow> ('v, 'e) WindowToggleSubscriber" where
  "super_error err s = unsubscribe (perform (DestinationError err) s)"

definition super_complete :: "('v, 'e) WindowToggleSubscriber \<Rightarrow> ('v, 'e) WindowToggleSubscriber" where
  "super_complete s = unsubscribe (perform DestinationComplete s)"

text \<open>\<^verbatim>\<open>_error\<close> (lines 103-120).\<close>

primrec error_loop :: "'e \<Rightarrow> WindowContext list \<Rightarrow> ('v, 'e) WindowToggleSubscriber \<Rightarrow> ('v, 'e) WindowToggleSubscriber" where
  "error_loop err [] s = s"
| "error_loop err (context # rest) s =
     error_loop err rest
       (perform (Unsubscribe (subscription context)) (perform (WindowError (window context) err) s))"

definition protected_error :: "'e \<Rightarrow> ('v, 'e) WindowToggleSubscriber \<Rightarrow> ('v, 'e) WindowToggleSubscriber" where
  "protected_error err s =
     super_error err
       (case contexts s of
          None \<Rightarrow> s\<lparr>contexts := None\<rparr>
        | Some cs \<Rightarrow> error_loop err cs (s\<lparr>contexts := None\<rparr>))"

text \<open>\<^verbatim>\<open>_complete\<close> (lines 122-135).\<close>

primrec complete_loop :: "WindowContext list \<Rightarrow> ('v, 'e) WindowToggleSubscriber \<Rightarrow> ('v, 'e) WindowToggleSubscriber" where
  "complete_loop [] s = s"
| "complete_loop (context # rest) s =
     complete_loop rest
       (perform (Unsubscribe (subscription context)) (perform (WindowComplete (window context)) s))"

definition protected_complete :: "('v, 'e) WindowToggleSubscriber \<Rightarrow> ('v, 'e) WindowToggleSubscriber" where
  "protected_complete s =
     super_complete
       (case contexts s of
          None \<Rightarrow> s\<lparr>contexts := None\<rparr>
        | Some cs \<Rightarrow> complete_loop cs (s\<lparr>contexts := None\<rparr>))"

text \<open>
  Modelled from the spec: the public entry points of the base class \<^verbatim>\<open>Subscriber\<close>, which
  is not among the sources. Each is gated by \<open>isStopped\<close>, so that the first terminal
  transition wins.
\<close>

definition error :: "'e \<Rightarrow> ('v, 'e) WindowToggleSubscriber \<Rightarrow> ('v, 'e) WindowToggleSubscriber" where
  "error err s = (if isStopped s then s else protected_error err (s\<lparr>isStopped := True\<rparr>))"

definition complete :: "('v, 'e) WindowToggleSubscriber \<Rightarrow> ('v, 'e) WindowToggleSubscriber" where
  "complete s = (if isStopped s then s else protected_complete (s\<lparr>isStopped := True\<rparr>))"

subsection \<open>Closing one window\<close>

text \<open>
  \<^verbatim>\<open>Array.prototype.indexOf\<close>: the first position holding the object, or \<open>-1\<close>.
\<close>

fun indexOf :: "'a list \<Rightarrow> 'a \<Rightarrow> int" where
  "indexOf [] x = - 1"
| "indexOf (y # ys) x =
     (if y = x then 0 else (let i = indexOf ys x in if i = - 1 then - 1 else i + 1))"

text \<open>\<^verbatim>\<open>contexts.splice(index, 1)\<close> for an index inside the array.\<close>

definition splice1 :: "'a list \<Rightarrow> nat \<Rightarrow> 'a list" where
  "splice1 xs i = take i xs @ drop (Suc i) xs"

text \<open>
  \<^verbatim>\<open>closeWindow\<close> (lines 194-205). An index outside the array reads \<^verbatim>\<open>undefined\<close> from
  \<^verbatim>\<open>contexts[index]\<close>, and destructuring \<^verbatim>\<open>undefined\<close> throws; so does indexing
  \<^verbatim>\<open>null\<close>.
\<close>

definition closeWindow :: "int \<Rightarrow> ('v, 'e) WindowToggleSubscriber \<Rightarrow> ('v, 'e) outcome" where
  "closeWindow index s =
     (if index = - 1 then Inr s
      else (case contexts s of
              None \<Rightarrow> Inl (TypeError, s)
            | Some cs \<Rightarrow>
                if 0 \<le> index \<and> index < int (length cs) then
                  (let context = cs ! nat index;
                       s1 = s\<lparr>contexts := Some (splice1 cs (nat index)),
                              array := splice1 cs (nat index)\<rparr>;
                       s2 = perform (WindowComplete (window context)) s1
                   in Inr (perform (Unsubscribe (subscription context)) s2))
                else Inl (TypeError, s)))"

subsection \<open>Notifications from the openings stream and the closing notifiers\<close>

text \<open>
  The first argument of \<^verbatim>\<open>notifyNext\<close> is the tag given to \<^verbatim>\<open>subscribeToResult\<close>:
  the \<^verbatim>\<open>openings\<close> observable itself (line 90) or the context of a window (line 167).
  The test \<^verbatim>\<open>outerValue === this.openings\<close> tells the two apart.
\<close>

datatype outerValue = Openings | Tagged WindowContext

text \<open>\<^verbatim>\<open>notifyError\<close> (lines 184-186).\<close>

definition notifyError :: "'e \<Rightarrow> ('v, 'e) WindowToggleSubscriber \<Rightarrow> ('v, 'e) WindowToggleSubscriber" where
  "notifyError err s = error err s"

text \<open>
  \<^verbatim>\<open>notifyComplete\<close> (lines 188-192). The test \<^verbatim>\<open>inner !== this.openSubscription\<close>
  compares with the field, which is still \<^verbatim>\<open>undefined\<close> while line 90 subscribes.
  \<^verbatim>\<open>this.contexts.indexOf\<close> throws when \<^verbatim>\<open>contexts\<close> is \<^verbatim>\<open>null\<close>; looking up
  \<^verbatim>\<open>undefined\<close> finds nothing, since the array holds contexts only. The inner
  subscription of the openings stream has no \<^verbatim>\<open>context\<close> property.
\<close>

fun context_of :: "InnerSubscriber \<Rightarrow> WindowContext option" where
  "context_of OpenSubscription = None"
| "context_of (ClosingSubscription tag) = tag"

definition notifyComplete :: "InnerSubscriber \<Rightarrow> ('v, 'e) WindowToggleSubscriber \<Rightarrow> ('v, 'e) outcome" where
  "notifyComplete inner s =
     (if Some inner \<noteq> openSubscription s then
        (case contexts s of
           None \<Rightarrow> Inl (TypeError, s)
         | Some cs \<Rightarrow>
             closeWindow (case context_of inner of None \<Rightarrow> - 1 | Some context \<Rightarrow> indexOf cs context) s)
      else Inr s)"

text \<open>
  The \<^verbatim>\<open>else\<close> branch of \<^verbatim>\<open>notifyNext\<close> (line 180): a value from the closing notifier
  tagged with \<open>context\<close>. The value itself is not used.
\<close>

definition closingNext :: "WindowContext \<Rightarrow> ('v, 'e) WindowToggleSubscriber \<Rightarrow> ('v, 'e) outcome" where
  "closingNext context s =
     (case contexts s of
        None \<Rightarrow> Inl (TypeError, s)
      | Some cs \<Rightarrow> closeWindow (indexOf cs context) s)"

text \<open>
  Modelled from the spec: \<^verbatim>\<open>subscribeToResult\<close> and \<^verbatim>\<open>InnerSubscriber\<close> (the
  multiplexed-subscribe helper) are not among the sources. The helper subscribes to the
  closing notifier and routes its notifications to the coordinator under the given tag; a
  notifier may notify synchronously, during its own subscription, sends at most one terminal
  notification and nothing after it, and the returned handle has a \<^verbatim>\<open>closed\<close> flag. A
  closing notifier is therefore described by what subscribing to it does before the call
  returns: the notifications it sends and whether the returned handle is closed. While the
  call runs, line 172 has not yet assigned the \<^verbatim>\<open>context\<close> property of the inner
  subscription.
\<close>

datatype 'e notification = Next | Error 'e | Complete

record 'e Observable =
  synchronous :: "'e notification list"
  closedAfterSubscribe :: bool

fun subscribeToResult :: "'e notification list \<Rightarrow> WindowContext \<Rightarrow> ('v, 'e) WindowToggleSubscriber \<Rightarrow> ('v, 'e) outcome" where
  "subscribeToResult [] context s = Inr s"
| "subscribeToResult (Next # rest) context s =
     (case closingNext context s of
        Inl f \<Rightarrow> Inl f
      | Inr s' \<Rightarrow> subscribeToResult rest context s')"
| "subscribeToResult (Error err # rest) context s = Inr (notifyError err s)"
| "subscribeToResult (Complete # rest) context s = notifyComplete (ClosingSubscription None) s"

text \<open>
  \<^verbatim>\<open>notifyNext\<close> (lines 151-182). The closing selector is a parameter: \<open>Inl e\<close> when the
  call throws \<open>e\<close> (\<^verbatim>\<open>tryCatch\<close> then returns \<^verbatim>\<open>errorObject\<close>), \<open>Inr\<close> the closing
  notifier otherwise. \<^verbatim>\<open>this.contexts.push\<close> and \<^verbatim>\<open>this.contexts.length\<close> throw when
  \<^verbatim>\<open>contexts\<close> is \<^verbatim>\<open>null\<close>.
\<close>

definition notifyNext ::
  "('o \<Rightarrow> 'e + 'e Observable) \<Rightarrow> outerValue \<Rightarrow> 'o \<Rightarrow> ('v, 'e) WindowToggleSubscriber \<Rightarrow> ('v, 'e) outcome" where
  "notifyNext closingSelector outerValue innerValue s =
     (case outerValue of
        Openings \<Rightarrow>
          (case closingSelector innerValue of
             Inl e \<Rightarrow> Inr (error e s)
           | Inr closingNotifier \<Rightarrow>
               (case contexts s of
                  None \<Rightarrow> Inl (TypeError, s)
                | Some cs \<Rightarrow>
                    (let context = \<lparr>window = Subject (allocated s), subscription = Subscription (allocated s)\<rparr>;
                         s1 = s\<lparr>contexts := Some (cs @ [context]), array := cs @ [context],
                                allocated := Suc (allocated s)\<rparr>
                     in case subscribeToResult (synchronous closingNotifier) context s1 of
                          Inl f \<Rightarrow> Inl f
                        | Inr s2 \<Rightarrow>
                            (case (if closedAfterSubscribe closingNotifier then
                                     (case contexts s2 of
                                        None \<Rightarrow> Inl (TypeError, s2)
                                      | Some cs2 \<Rightarrow> closeWindow (int (length cs2) - 1) s2)
                                   else Inr (perform (Add (subscription context) context) s2)) of
                               Inl f \<Rightarrow> Inl f
                             | Inr s3 \<Rightarrow> Inr (perform (DestinationNext (window context)) s3)))))
      | Tagged context \<Rightarrow> closingNext context s)"

subsection \<open>Source values\<close>

text \<open>
  \<^verbatim>\<open>window.next(value)\<close> runs the subscribers of the window, and these can notify the
  coordinator before the call returns: a subscriber can make a closing notifier or the
  openings stream emit, or cancel downstream. These are the notifications other than source
  values; each is handled by the method it reaches, as above. A source value arriving while
  \<^verbatim>\<open>window.next\<close> runs is not modelled.
\<close>

datatype ('e, 'o) signal =
    SourceError 'e
  | SourceComplete
  | Cancel
  | OpeningsNext 'o
  | OpeningsError 'e
  | OpeningsComplete
  | NotifierNext WindowContext
  | NotifierError 'e
  | NotifierComplete "WindowContext option"

fun deliver ::
  "('o \<Rightarrow> 'e + 'e Observable) \<Rightarrow> ('e, 'o) signal \<Rightarrow> ('v, 'e) WindowToggleSubscriber \<Rightarrow> ('v, 'e) outcome" where
  "deliver sel (SourceError e) s = Inr (error e s)"
| "deliver sel SourceComplete s = Inr (complete s)"
| "deliver sel Cancel s = Inr (unsubscribe s)"
| "deliver sel (OpeningsNext x) s = notifyNext sel Openings x s"
| "deliver sel (OpeningsError e) s = Inr (notifyError e s)"
| "deliver sel OpeningsComplete s = notifyComplete OpenSubscription s"
| "deliver sel (NotifierNext context) s = closingNext context s"
| "deliver sel (NotifierError e) s = Inr (notifyError e s)"
| "deliver sel (NotifierComplete tag) s = notifyComplete (ClosingSubscription tag) s"

text \<open>Notifications in sequence; a throw ends the sequence and propagates.\<close>

fun deliver_all ::
  "('o \<Rightarrow> 'e + 'e Observable) \<Rightarrow> ('e, 'o) signal list \<Rightarrow> ('v, 'e) WindowToggleSubscriber \<Rightarrow> ('v, 'e) outcome" where
  "deliver_all sel [] s = Inr s"
| "deliver_all sel (x # rest) s =
     (case deliver sel x s of
        Inl f \<Rightarrow> Inl f
      | Inr s' \<Rightarrow> deliver_all sel rest s')"

text \<open>
  \<^verbatim>\<open>_next\<close> (lines 93-101). The loop runs \<open>i\<close> from \<open>0\<close> to the length \<^verbatim>\<open>len\<close> read before
  the loop, and reads \<^verbatim>\<open>contexts[i]\<close> from the array object at each step: an index past the
  end of the array reads \<^verbatim>\<open>undefined\<close>, and \<^verbatim>\<open>undefined.window\<close> throws. The parameter
  \<open>react\<close> gives, for a window and a value, the notifications that reach the coordinator
  while \<^verbatim>\<open>window.next(value)\<close> runs; a throw among them propagates through the call and
  ends the loop.
\<close>

function next_loop ::
  "('o \<Rightarrow> 'e + 'e Observable) \<Rightarrow> (subject \<Rightarrow> 'v \<Rightarrow> ('e, 'o) signal list) \<Rightarrow> 'v \<Rightarrow> nat \<Rightarrow> nat
     \<Rightarrow> ('v, 'e) WindowToggleSubscriber \<Rightarrow> ('v, 'e) outcome" where
  "next_loop sel react v i len s =
     (if i < len then
        (if i < length (array s) then
           (case deliver_all sel (react (window (array s ! i)) v)
                   (perform (WindowNext (window (array s ! i)) v) s) of
              Inl f \<Rightarrow> Inl f
            | Inr s' \<Rightarrow> next_loop sel react v (Suc i) len s')
         else Inl (TypeError, s))
      else Inr s)"
  by pat_completeness auto
termination
  by (relation "measure (\<lambda>(sel, react, v, i, len, s). len - i)") auto

definition protected_next ::
  "('o \<Rightarrow> 'e + 'e Observable) \<Rightarrow> (subject \<Rightarrow> 'v \<Rightarrow> ('e, 'o) signal list) \<Rightarrow> 'v
     \<Rightarrow> ('v, 'e) WindowToggleSubscriber \<Rightarrow> ('v, 'e) outcome" where
  "protected_next sel react v s =
     (case contexts s of
        None \<Rightarrow> Inr s
      | Some cs \<Rightarrow> next_loop sel react v 0 (length cs) s)"

text \<open>
  Modelled from the spec: the entry point \<^verbatim>\<open>next\<close> of the base class \<^verbatim>\<open>Subscriber\<close>,
  gated by \<open>isStopped\<close> like \<^verbatim>\<open>error\<close> and \<^verbatim>\<open>complete\<close>.
\<close>

definition "next" ::
  "('o \<Rightarrow> 'e + 'e Observable) \<Rightarrow> (subject \<Rightarrow> 'v \<Rightarrow> ('e, 'o) signal list) \<Rightarrow> 'v
     \<Rightarrow> ('v, 'e) WindowToggleSubscriber \<Rightarrow> ('v, 'e) outcome" where
  "next sel react v s = (if isStopped s then Inr s else protected_next sel react v s)"

section \<open>Runs of the coordinator\<close>

text \<open>
  The constructor (lines 83-91): the field initialiser makes the array, then line 90
  subscribes to the openings stream, which may notify during its own subscription, and
  assigns \<^verbatim>\<open>openSubscription\<close> when the subscribe call has returned.
\<close>

definition constructing :: "('v, 'e) WindowToggleSubscriber" where
  "constructing = \<lparr>contexts = Some [], array = [], openSubscription = None, isStopped = False,
                    closed = False, allocated = 0, calls = []\<rparr>"

definition "constructor" ::
  "('o \<Rightarrow> 'e + 'e Observable) \<Rightarrow> ('e, 'o) signal list \<Rightarrow> ('v, 'e) outcome" where
  "constructor sel during =
     (case deliver_all sel during constructing of
        Inl f \<Rightarrow> Inl f
      | Inr s \<Rightarrow> Inr (s\<lparr>openSubscription := Some OpenSubscription\<rparr>))"

text \<open>The state after the constructor when the openings stream sent nothing meanwhile.\<close>

definition initial :: "('v, 'e) WindowToggleSubscriber" where
  "initial = \<lparr>contexts = Some [], array = [], openSubscription = Some OpenSubscription,
               isStopped = False, closed = False, allocated = 0, calls = []\<rparr>"

text \<open>
  The notifications the coordinator receives after its construction: source values
  (through \<^verbatim>\<open>next\<close>) and the others. A run feeds a list of them to the coordinator; a call
  that throws leaves the object in the state it had at the throw, and later notifications
  act on that state.
\<close>

datatype ('v, 'e, 'o) input = SourceNext 'v | Other "('e, 'o) signal"

fun dispatch ::
  "('o \<Rightarrow> 'e + 'e Observable) \<Rightarrow> (subject \<Rightarrow> 'v \<Rightarrow> ('e, 'o) signal list) \<Rightarrow> ('v, 'e, 'o) input
     \<Rightarrow> ('v, 'e) WindowToggleSubscriber \<Rightarrow> ('v, 'e) outcome" where
  "dispatch sel react (SourceNext v) s = next sel react v s"
| "dispatch sel react (Other x) s = deliver sel x s"

fun run ::
  "('o \<Rightarrow> 'e + 'e Observable) \<Rightarrow> (subject \<Rightarrow> 'v \<Rightarrow> ('e, 'o) signal list) \<Rightarrow> ('v, 'e, 'o) input list
     \<Rightarrow> ('v, 'e) WindowToggleSubscriber \<Rightarrow> ('v, 'e) WindowToggleSubscriber" where
  "run sel react [] s = s"
| "run sel react (i # rest) s = run sel react rest (state_of (dispatch sel react i s))"

section \<open>Observations and example states\<close>

text \<open>The errors the downstream consumer has received, in order.\<close>

fun destination_errors :: "('v, 'e) call list \<Rightarrow> 'e list" where
  "destination_errors [] = []"
| "destination_errors (DestinationError e # cs) = e # destination_errors cs"
| "destination_errors (c # cs) = destination_errors cs"

text \<open>
  The contexts registered so far: \<^verbatim>\<open>notifyNext\<close> gives the context it pushes the next
  unused identity.
\<close>

definition new_context :: "nat \<Rightarrow> WindowContext" where
  "new_context n = \<lparr>window = Subject n, subscription = Subscription n\<rparr>"

definition created :: "('v, 'e) WindowToggleSubscriber \<Rightarrow> WindowContext list" where
  "created s = map new_context [0..<allocated s]"

text \<open>
  The window a call is made on, and the calls that are terminal for a window
  (\<^verbatim>\<open>error\<close>, \<^verbatim>\<open>complete\<close>, \<^verbatim>\<open>unsubscribe\<close>).
\<close>

fun sink_of :: "('v, 'e) call \<Rightarrow> subject option" where
  "sink_of (WindowNext w v) = Some w"
| "sink_of (WindowError w e) = Some w"
| "sink_of (WindowComplete w) = Some w"
| "sink_of (WindowUnsubscribe w) = Some w"
| "sink_of (Unsubscribe h) = None"
| "sink_of (Add h c) = None"
| "sink_of (DestinationNext w) = None"
| "sink_of (DestinationError e) = None"
| "sink_of DestinationComplete = None"

fun terminal :: "('v, 'e) call \<Rightarrow> bool" where
  "terminal (WindowError w e) = True"
| "terminal (WindowComplete w) = True"
| "terminal (WindowUnsubscribe w) = True"
| "terminal (WindowNext w v) = False"
| "terminal (Unsubscribe h) = False"
| "terminal (Add h c) = False"
| "terminal (DestinationNext w) = False"
| "terminal (DestinationError e) = False"
| "terminal DestinationComplete = False"

text \<open>
  \<open>ended_by w\<close>: the call is \<^verbatim>\<open>complete\<close> or \<^verbatim>\<open>unsubscribe\<close> on window \<open>w\<close>;
  \<open>next_on w\<close>: the call is \<^verbatim>\<open>next\<close> on window \<open>w\<close>.
\<close>

fun ended_by :: "subject \<Rightarrow> ('v, 'e) call \<Rightarrow> bool" where
  "ended_by w (WindowComplete w') = (w' = w)"
| "ended_by w (WindowUnsubscribe w') = (w' = w)"
| "ended_by w (WindowNext w' v) = False"
| "ended_by w (WindowError w' e) = False"
| "ended_by w (Unsubscribe h) = False"
| "ended_by w (Add h c) = False"
| "ended_by w (DestinationNext w') = False"
| "ended_by w (DestinationError e) = False"
| "ended_by w DestinationComplete = False"

fun next_on :: "subject \<Rightarrow> ('v, 'e) call \<Rightarrow> bool" where
  "next_on w (WindowNext w' v) = (w' = w)"
| "next_on w (WindowError w' e) = False"
| "next_on w (WindowComplete w') = False"
| "next_on w (WindowUnsubscribe w') = False"
| "next_on w (Unsubscribe h) = False"
| "next_on w (Add h c) = False"
| "next_on w (DestinationNext w') = False"
| "next_on w (DestinationError e) = False"
| "next_on w DestinationComplete = False"

text \<open>
  \<open>nothing_after final banned\<close>: once a \<open>final\<close> call has been made, no \<open>banned\<close> call
  follows. \<open>lifecycle_ok w\<close> is invariant I2 for window \<open>w\<close>: after a \<^verbatim>\<open>complete\<close> or an
  \<^verbatim>\<open>unsubscribe\<close> on \<open>w\<close> there is no second one and no \<^verbatim>\<open>next\<close> on \<open>w\<close>.
  \<open>terminated w\<close>: window \<open>w\<close> has received a terminal call. \<open>sealed w\<close>: after a terminal
  call on \<open>w\<close> no call at all is made on \<open>w\<close>.
\<close>

fun nothing_after :: "('a \<Rightarrow> bool) \<Rightarrow> ('a \<Rightarrow> bool) \<Rightarrow> 'a list \<Rightarrow> bool" where
  "nothing_after final banned [] = True"
| "nothing_after final banned (d # ds) =
     (if final d then list_all (\<lambda>d'. \<not> banned d') ds else nothing_after final banned ds)"

definition lifecycle_ok :: "subject \<Rightarrow> ('v, 'e) call list \<Rightarrow> bool" where
  "lifecycle_ok w cs = nothing_after (ended_by w) (\<lambda>d. ended_by w d \<or> next_on w d) cs"

definition terminated :: "subject \<Rightarrow> ('v, 'e) call list \<Rightarrow> bool" where
  "terminated w cs = list_ex (\<lambda>d. terminal d \<and> sink_of d = Some w) cs"

definition sealed :: "subject \<Rightarrow> ('v, 'e) call list \<Rightarrow> bool" where
  "sealed w cs = nothing_after (\<lambda>d. terminal d \<and> sink_of d = Some w) (\<lambda>d. sink_of d = Some w) cs"

text \<open>
  The invariant of a run, for a list of live contexts, the number of contexts registered
  and the calls made: live contexts have distinct windows, were registered and are not
  terminated; registered contexts that are no longer live are terminated; calls on windows
  are on registered windows; every window is sealed. In a coherent state the field
  \<^verbatim>\<open>contexts\<close>, unless \<^verbatim>\<open>null\<close>, refers to the array object.
\<close>

definition consistent :: "WindowContext list \<Rightarrow> nat \<Rightarrow> ('v, 'e) call list \<Rightarrow> bool" where
  "consistent live n cs \<longleftrightarrow>
     distinct (map window live)
     \<and> set live \<subseteq> new_context ` {..<n}
     \<and> (\<forall>c \<in> set live. \<not> terminated (window c) cs)
     \<and> (\<forall>k < n. new_context k \<notin> set live \<longrightarrow> terminated (Subject k) cs)
     \<and> (\<forall>d \<in> set cs. \<forall>w. sink_of d = Some w \<longrightarrow> w \<in> Subject ` {..<n})
     \<and> (\<forall>w. sealed w cs)"

definition coherent :: "('v, 'e) WindowToggleSubscriber \<Rightarrow> bool" where
  "coherent s \<longleftrightarrow>
     consistent (active s) (allocated s) (calls s)
     \<and> (contexts s = None \<or> contexts s = Some (array s))"

text \<open>
  Concrete states and closing notifiers, used to instantiate the theorems below: a
  coordinator with one and with two open windows, and closing notifiers
  that, during their own subscription, emit a value and complete, emit a value only, fail,
  complete, or do nothing.
\<close>

definition context0 :: WindowContext where
  "context0 = \<lparr>window = Subject 0, subscription = Subscription 0\<rparr>"

definition context1 :: WindowContext where
  "context1 = \<lparr>window = Subject 1, subscription = Subscription 1\<rparr>"

definition two_open :: "(nat, string) WindowToggleSubscriber" where
  "two_open = \<lparr>contexts = Some [context0, context1], array = [context0, context1],
                openSubscription = Some OpenSubscription, isStopped = False, closed = False,
                allocated = 2, calls = []\<rparr>"

definition one_open :: "(nat, string) WindowToggleSubscriber" where
  "one_open = \<lparr>contexts = Some [context0], array = [context0],
                openSubscription = Some OpenSubscription, isStopped = False, closed = False,
                allocated = 1, calls = []\<rparr>"

definition emits_then_completes :: "string Observable" where
  "emits_then_completes = \<lparr>synchronous = [Next, Complete], closedAfterSubscribe = True\<rparr>"

definition emits_only :: "string Observable" where
  "emits_only = \<lparr>synchronous = [Next], closedAfterSubscribe = False\<rparr>"

definition fails_at_once :: "string Observable" where
  "fails_at_once = \<lparr>synchronous = [Error ''boom''], closedAfterSubscribe = True\<rparr>"

definition already_complete :: "string Observable" where
  "already_complete = \<lparr>synchronous = [Complete], closedAfterSubscribe = True\<rparr>"

definition never_closes :: "string Observable" where
  "never_closes = \<lparr>synchronous = [], closedAfterSubscribe = False\<rparr>"

text \<open>
  Reactions of window subscribers to a value: none; a subscriber of window 0 that makes the
  closing notifier of window 0 emit; a subscriber of window 0 that cancels downstream.
\<close>

definition no_reaction :: "subject \<Rightarrow> nat \<Rightarrow> (string, nat) signal list" where
  "no_reaction w v = []"

definition closes_own_window :: "subject \<Rightarrow> nat \<Rightarrow> (string, nat) signal list" where
  "closes_own_window w v = (if w = Subject 0 then [NotifierNext context0] else [])"

definition cancels_downstream :: "subject \<Rightarrow> nat \<Rightarrow> (string, nat) signal list" where
  "cancels_downstream w v = (if w = Subject 0 then [Cancel] else [])"

section \<open>What the loops and the terminal transitions do\<close>

lemma error_loop_calls:
  "error_loop err cs s =
     s\<lparr>calls := calls s @ concat (map (\<lambda>c. [WindowError (window c) err, Unsubscribe (subscription c)]) cs)\<rparr>"
  by (induction cs arbitrary: s) (simp_all add: perform_def)

lemma complete_loop_calls:
  "complete_loop cs s =
     s\<lparr>calls := calls s @ concat (map (\<lambda>c. [WindowComplete (window c), Unsubscribe (subscription c)]) cs)\<rparr>"
  by (induction cs arbitrary: s) (simp_all add: perform_def)

lemma unsubscribe_loop_calls:
  "unsubscribe_loop cs s =
     s\<lparr>calls := calls s @ concat (map (\<lambda>c. [WindowUnsubscribe (window c), Unsubscribe (subscription c)]) cs)\<rparr>"
  by (induction cs arbitrary: s) (simp_all add: perform_def)

lemma protected_unsubscribe_eq:
  "protected_unsubscribe s =
     s\<lparr>contexts := None,
       calls := calls s @ concat (map (\<lambda>c. [WindowUnsubscribe (window c), Unsubscribe (subscription c)]) (active s))\<rparr>"
  by (simp add: protected_unsubscribe_def active_def unsubscribe_loop_calls split: option.splits)

lemma unsubscribe_eq:
  "unsubscribe s =
     (if closed s then s
      else s\<lparr>contexts := None, isStopped := True, closed := True,
             calls := calls s @ concat (map (\<lambda>c. [WindowUnsubscribe (window c), Unsubscribe (subscription c)]) (active s))\<rparr>)"
  by (simp add: unsubscribe_def protected_unsubscribe_eq active_def)

lemma protected_error_eq:
  "protected_error err s =
     unsubscribe (s\<lparr>contexts := None,
       calls := calls s @ concat (map (\<lambda>c. [WindowError (window c) err, Unsubscribe (subscription c)]) (active s))
                 @ [DestinationError err]\<rparr>)"
  by (simp add: protected_error_def super_error_def perform_def active_def error_loop_calls
        split: option.splits)

lemma protected_complete_eq:
  "protected_complete s =
     unsubscribe (s\<lparr>contexts := None,
       calls := calls s @ concat (map (\<lambda>c. [WindowComplete (window c), Unsubscribe (subscription c)]) (active s))
                 @ [DestinationComplete]\<rparr>)"
  by (simp add: protected_complete_def super_complete_def perform_def active_def complete_loop_calls
        split: option.splits)

lemma unsubscribe_torn_down:
  "contexts s = None \<Longrightarrow> unsubscribe s = (if closed s then s else s\<lparr>isStopped := True, closed := True\<rparr>)"
  by (simp add: unsubscribe_eq active_def)

lemma calls_protected_error:
  "calls (protected_error err s) =
     calls s @ concat (map (\<lambda>c. [WindowError (window c) err, Unsubscribe (subscription c)]) (active s))
       @ [DestinationError err]"
  by (simp add: protected_error_eq unsubscribe_torn_down)

lemma calls_protected_complete:
  "calls (protected_complete s) =
     calls s @ concat (map (\<lambda>c. [WindowComplete (window c), Unsubscribe (subscription c)]) (active s))
       @ [DestinationComplete]"
  by (simp add: protected_complete_eq unsubscribe_torn_down)

lemma contexts_protected_error: "contexts (protected_error err s) = None"
  by (simp add: protected_error_eq unsubscribe_torn_down)

lemma contexts_protected_complete: "contexts (protected_complete s) = None"
  by (simp add: protected_complete_eq unsubscribe_torn_down)

lemma isStopped_protected_error: "isStopped s \<Longrightarrow> isStopped (protected_error err s)"
  by (simp add: protected_error_eq unsubscribe_torn_down)

lemma allocated_protected_error: "allocated (protected_error err s) = allocated s"
  by (simp add: protected_error_eq unsubscribe_torn_down)

section \<open>Index lookup and removal\<close>

lemma indexOf_range: "indexOf xs x = - 1 \<or> (0 \<le> indexOf xs x \<and> indexOf xs x < int (length xs))"
  by (induction xs) (auto simp: Let_def)

lemma indexOf_absent: "x \<notin> set xs \<Longrightarrow> indexOf xs x = - 1"
  by (induction xs) (auto simp: Let_def)

lemma indexOf_present:
  "x \<in> set xs \<Longrightarrow> 0 \<le> indexOf xs x \<and> indexOf xs x < int (length xs) \<and> xs ! nat (indexOf xs x) = x"
proof (induction xs)
  case Nil
  then show ?case by simp
next
  case (Cons y ys)
  show ?case
  proof (cases "y = x")
    case True
    then show ?thesis by simp
  next
    case False
    with Cons.prems have "x \<in> set ys" by simp
    from Cons.IH [OF this] False show ?thesis
      by (auto simp: Let_def nat_add_distrib)
  qed
qed

lemma splice1_indexOf: "x \<in> set xs \<Longrightarrow> splice1 xs (nat (indexOf xs x)) = remove1 x xs"
proof (induction xs)
  case Nil
  then show ?case by simp
next
  case (Cons y ys)
  show ?case
  proof (cases "y = x")
    case True
    then show ?thesis by (simp add: splice1_def)
  next
    case False
    with Cons.prems have in_ys: "x \<in> set ys" by simp
    from indexOf_present [OF in_ys] have "0 \<le> indexOf ys x" by simp
    then have "nat (indexOf ys x + 1) = Suc (nat (indexOf ys x))" by simp
    with Cons.IH [OF in_ys] False indexOf_present [OF in_ys] show ?thesis
      by (auto simp: Let_def splice1_def)
  qed
qed

lemma length_splice1: "i < length xs \<Longrightarrow> length (splice1 xs i) = length xs - 1"
  by (simp add: splice1_def)

lemma set_splice1: "distinct xs \<Longrightarrow> i < length xs \<Longrightarrow> set (splice1 xs i) = set xs - {xs ! i}"
proof -
  assume d: "distinct xs" and i: "i < length xs"
  define pre where "pre = take i xs"
  define post where "post = drop (Suc i) xs"
  from i have eq: "xs = pre @ xs ! i # post"
    unfolding pre_def post_def by (rule id_take_nth_drop)
  from d have "distinct (pre @ xs ! i # post)" by (subst eq [symmetric])
  then have "xs ! i \<notin> set pre" and "xs ! i \<notin> set post" by auto
  moreover have "set xs = set (pre @ xs ! i # post)" by (subst eq [symmetric]) (rule refl)
  ultimately have "set (pre @ post) = set xs - {xs ! i}" by auto
  then show ?thesis by (simp add: splice1_def pre_def post_def)
qed

lemma closeWindow_in_range:
  "contexts s = Some cs \<Longrightarrow> 0 \<le> i \<Longrightarrow> i < int (length cs) \<Longrightarrow>
     closeWindow i s =
       Inr (s\<lparr>contexts := Some (splice1 cs (nat i)), array := splice1 cs (nat i),
              calls := calls s @ [WindowComplete (window (cs ! nat i)), Unsubscribe (subscription (cs ! nat i))]\<rparr>)"
  by (simp add: closeWindow_def perform_def Let_def)

lemma closeWindow_none: "closeWindow (- 1) s = Inr s"
  by (simp add: closeWindow_def)

lemma closingNext_present:
  "contexts s = Some cs \<Longrightarrow> c \<in> set cs \<Longrightarrow>
     closingNext c s =
       Inr (s\<lparr>contexts := Some (remove1 c cs), array := remove1 c cs,
              calls := calls s @ [WindowComplete (window c), Unsubscribe (subscription c)]\<rparr>)"
  using indexOf_present [of c cs]
  by (simp add: closingNext_def closeWindow_in_range splice1_indexOf)

lemma closingNext_absent: "contexts s = Some cs \<Longrightarrow> c \<notin> set cs \<Longrightarrow> closingNext c s = Inr s"
  by (simp add: closingNext_def indexOf_absent closeWindow_none)

lemma destination_errors_append:
  "destination_errors (xs @ ys) = destination_errors xs @ destination_errors ys"
  by (induction xs rule: destination_errors.induct) simp_all

lemma destination_errors_window_errors:
  "destination_errors (concat (map (\<lambda>c. [WindowError (window c) err, Unsubscribe (subscription c)]) cs)) = []"
  by (induction cs) simp_all

lemma error_running:
  "\<not> isStopped s \<Longrightarrow> error err s = protected_error err (s\<lparr>isStopped := True\<rparr>)"
  by (simp add: error_def)

lemma calls_error_running:
  "\<not> isStopped s \<Longrightarrow>
     calls (error err s) =
       calls s @ concat (map (\<lambda>c. [WindowError (window c) err, Unsubscribe (subscription c)]) (active s))
         @ [DestinationError err]"
  by (simp add: error_running calls_protected_error active_def)

lemma isStopped_error: "isStopped (error err s)"
  by (simp add: error_def isStopped_protected_error)

section \<open>Source values without re-entry\<close>

declare next_loop.simps [simp del]

lemma next_loop_done: "\<not> i < len \<Longrightarrow> next_loop sel react v i len s = Inr s"
  by (subst next_loop.simps) simp

lemma next_loop_undefined:
  "i < len \<Longrightarrow> \<not> i < length (array s) \<Longrightarrow> next_loop sel react v i len s = Inl (TypeError, s)"
  by (subst next_loop.simps) simp

lemma next_loop_step:
  "i < len \<Longrightarrow> i < length (array s) \<Longrightarrow>
     next_loop sel react v i len s =
       (case deliver_all sel (react (window (array s ! i)) v)
               (perform (WindowNext (window (array s ! i)) v) s) of
          Inl f \<Rightarrow> Inl f
        | Inr s' \<Rightarrow> next_loop sel react v (Suc i) len s')"
  by (subst next_loop.simps) simp

lemma next_loop_quiet:
  assumes quiet: "\<And>w. react w v = []"
  shows "len \<le> length (array s) \<Longrightarrow>
     next_loop sel react v i len s =
       Inr (s\<lparr>calls := calls s @ map (\<lambda>c. WindowNext (window c) v) (drop i (take len (array s)))\<rparr>)"
proof (induction "len - i" arbitrary: i s)
  case 0
  then show ?case by (simp add: next_loop_done)
next
  case (Suc n)
  then have i: "i < len" "i < length (array s)" by simp_all
  from Suc have n: "n = len - Suc i" by simp
  have arr: "array (perform (WindowNext (window (array s ! i)) v) s) = array s"
    by (simp add: perform_def)
  from Suc.prems have len': "len \<le> length (array (perform (WindowNext (window (array s ! i)) v) s))"
    by (simp add: arr)
  from i have "drop i (take len (array s)) = array s ! i # drop (Suc i) (take len (array s))"
    by (simp add: Cons_nth_drop_Suc [symmetric])
  then show ?case
    using Suc.hyps(1) [OF n len'] i
    by (simp add: next_loop_step quiet arr) (simp add: perform_def)
qed

text \<open>
  When the subscribers of the windows do not notify the coordinator during
  \<^verbatim>\<open>window.next\<close>, \<^verbatim>\<open>_next\<close> delivers the value to the window of every context of the
  active set, in the order of the set, and changes nothing but the record of calls. When
  \<^verbatim>\<open>contexts\<close> is the terminated sentinel the call does nothing.
\<close>

lemma next_without_reentry:
  assumes "\<And>w. react w v = []" and "contexts s = None \<or> contexts s = Some (array s)"
  shows "protected_next sel react v s =
           Inr (s\<lparr>calls := calls s @ map (\<lambda>c. WindowNext (window c) v) (active s)\<rparr>)
         \<and> (contexts s = None \<longrightarrow> protected_next sel react v s = Inr s)
         \<and> (\<not> isStopped s \<longrightarrow> next sel react v s = protected_next sel react v s)"
  using assms
  by (auto simp: protected_next_def next_def active_def next_loop_quiet)

lemma fan_out_without_reaction:
  "next (\<lambda>x::nat. Inr never_closes) no_reaction 5 two_open =
     Inr (two_open\<lparr>calls := [WindowNext (Subject 0) 5, WindowNext (Subject 1) 5]\<rparr>)"
  using next_without_reentry [of no_reaction 5 two_open "\<lambda>x::nat. Inr never_closes"]
  by (simp add: no_reaction_def two_open_def active_def context0_def context1_def)

section \<open>Claims about single transitions\<close>

text \<open>
  Claim C5 says that \<^verbatim>\<open>_next\<close> delivers the value to the window of every context of the
  active set. The code does not, at this input: two windows are open (contexts 0 and 1) and
  a subscriber of window 0 reacts to the value by making the closing notifier of window 0
  emit. \<^verbatim>\<open>closeWindow\<close> splices the array the loop is reading, whose length the loop read
  beforehand: context 1 moves to index 0, \<^verbatim>\<open>contexts[1]\<close> is \<^verbatim>\<open>undefined\<close> and the loop
  throws. Context 1 is still in the active set and its window has not received the value.
\<close>

theorem fan_out_misses_window_after_close:
  "next (\<lambda>x::nat. Inr never_closes) closes_own_window 5 two_open =
     Inl (TypeError,
          two_open\<lparr>contexts := Some [context1], array := [context1],
            calls := [WindowNext (Subject 0) 5, WindowComplete (Subject 0),
                      Unsubscribe (Subscription 0)]\<rparr>)"
  by (simp add: next_def protected_next_def two_open_def closes_own_window_def context0_def
        context1_def next_loop_step next_loop_undefined closingNext_def closeWindow_def
        perform_def splice1_def Let_def)

text \<open>
  Claim C3. A fault reaching a coordinator that is not stopped (from the source through
  \<^verbatim>\<open>error\<close>, from the openings stream or a closing notifier through \<^verbatim>\<open>notifyError\<close>,
  from the closing selector through \<^verbatim>\<open>notifyNext\<close>) makes, for every context of the
  active set in order, the calls \<^verbatim>\<open>window.error(err)\<close> and
  \<^verbatim>\<open>subscription.unsubscribe()\<close>, and only then \<^verbatim>\<open>destination.error(err)\<close>. The
  downstream consumer receives this one error: the transition adds exactly one, and a later
  fault or completion changes nothing.
\<close>

theorem fault_errors_windows_before_destination:
  assumes "\<not> isStopped s"
  shows "calls (error err s) =
           calls s @ concat (map (\<lambda>c. [WindowError (window c) err, Unsubscribe (subscription c)]) (active s))
             @ [DestinationError err]
         \<and> destination_errors (calls (error err s)) = destination_errors (calls s) @ [err]
         \<and> notifyError err s = error err s
         \<and> (closingSelector x = Inl err \<longrightarrow> notifyNext closingSelector Openings x s = Inr (error err s))
         \<and> contexts (error err s) = None
         \<and> error err' (error err s) = error err s
         \<and> complete (error err s) = error err s"
proof -
  have stopped: "isStopped (error err s)" by (rule isStopped_error)
  have "destination_errors (calls (error err s)) = destination_errors (calls s) @ [err]"
    by (simp add: calls_error_running [OF assms] destination_errors_append
          destination_errors_window_errors)
  moreover have "contexts (error err s) = None"
    by (simp add: error_running [OF assms] contexts_protected_error)
  moreover from stopped have "error err' (error err s) = error err s" by (simp add: error_def)
  moreover from stopped have "complete (error err s) = error err s" by (simp add: complete_def)
  ultimately show ?thesis
    by (simp add: calls_error_running [OF assms] notifyError_def notifyNext_def)
qed

theorem fault_errors_windows_before_destination_witness:
  "\<not> isStopped two_open
   \<and> calls (error ''boom'' two_open) =
       [WindowError (Subject 0) ''boom'', Unsubscribe (Subscription 0),
        WindowError (Subject 1) ''boom'', Unsubscribe (Subscription 1),
        DestinationError ''boom'']
   \<and> destination_errors (calls (error ''boom'' two_open)) = [''boom'']
   \<and> notifyNext (\<lambda>x::nat. Inl ''boom'') Openings 0 two_open = Inr (error ''boom'' two_open)"
  using fault_errors_windows_before_destination [of two_open "''boom''" "\<lambda>x::nat. Inl ''boom''" 0]
  by (simp add: two_open_def active_def context0_def context1_def)

text \<open>
  Claim C4. When the closing selector throws on an opening value, \<^verbatim>\<open>notifyNext\<close> returns
  normally with the state of the Error transition for that exception. No context is
  registered (the allocation counter and the active set do not grow) and no window is
  delivered downstream.
\<close>

theorem selector_fault_is_error_transition:
  assumes "closingSelector x = Inl err"
  shows "notifyNext closingSelector Openings x s = Inr (error err s)
         \<and> allocated (error err s) = allocated s
         \<and> set (active (error err s)) \<subseteq> set (active s)
         \<and> (\<forall>w. DestinationNext w \<in> set (calls (error err s)) \<longrightarrow> DestinationNext w \<in> set (calls s))
         \<and> (\<not> isStopped s \<longrightarrow>
              contexts (error err s) = None
              \<and> calls (error err s) =
                  calls s @ concat (map (\<lambda>c. [WindowError (window c) err, Unsubscribe (subscription c)]) (active s))
                    @ [DestinationError err])"
proof (cases "isStopped s")
  case True
  with assms show ?thesis by (simp add: notifyNext_def error_def)
next
  case False
  have "contexts (error err s) = None"
    by (simp add: error_running [OF False] contexts_protected_error)
  moreover have "allocated (error err s) = allocated s"
    by (simp add: error_running [OF False] allocated_protected_error)
  ultimately show ?thesis using assms False
    by (auto simp: notifyNext_def calls_error_running [OF False] active_def)
qed

theorem selector_fault_is_error_transition_witness:
  "notifyNext (\<lambda>x::nat. Inl ''boom'') Openings 0 two_open = Inr (error ''boom'' two_open)
   \<and> allocated (error ''boom'' two_open) = 2
   \<and> contexts (error ''boom'' two_open) = None
   \<and> calls (error ''boom'' two_open) =
       [WindowError (Subject 0) ''boom'', Unsubscribe (Subscription 0),
        WindowError (Subject 1) ''boom'', Unsubscribe (Subscription 1),
        DestinationError ''boom'']"
  using selector_fault_is_error_transition [of "\<lambda>x::nat. Inl ''boom''" 0 "''boom''" two_open]
  by (simp add: two_open_def active_def context0_def context1_def)

lemma complete_running:
  "\<not> isStopped s \<Longrightarrow> complete s = protected_complete (s\<lparr>isStopped := True\<rparr>)"
  by (simp add: complete_def)

text \<open>
  Claim C6. \<^verbatim>\<open>_complete\<close> first sets \<^verbatim>\<open>contexts\<close> to the sentinel, then runs the loop
  over the contexts that were active (\<^verbatim>\<open>window.complete()\<close>, then
  \<^verbatim>\<open>subscription.unsubscribe()\<close>, in the order of the set), and finally calls
  \<^verbatim>\<open>destination.complete()\<close>. The completion of the source reaches \<^verbatim>\<open>_complete\<close>
  through \<^verbatim>\<open>complete\<close> when the coordinator is not stopped.
\<close>

theorem complete_tears_down_in_order:
  "protected_complete s = super_complete (complete_loop (active s) (s\<lparr>contexts := None\<rparr>))
   \<and> contexts (protected_complete s) = None
   \<and> calls (protected_complete s) =
       calls s @ concat (map (\<lambda>c. [WindowComplete (window c), Unsubscribe (subscription c)]) (active s))
         @ [DestinationComplete]
   \<and> (\<not> isStopped s \<longrightarrow>
        contexts (complete s) = None
        \<and> calls (complete s) =
            calls s @ concat (map (\<lambda>c. [WindowComplete (window c), Unsubscribe (subscription c)]) (active s))
              @ [DestinationComplete])"
proof -
  have shape: "protected_complete s = super_complete (complete_loop (active s) (s\<lparr>contexts := None\<rparr>))"
    by (simp add: protected_complete_def active_def split: option.splits)
  have rest: "contexts (protected_complete s) = None
   \<and> calls (protected_complete s) =
       calls s @ concat (map (\<lambda>c. [WindowComplete (window c), Unsubscribe (subscription c)]) (active s))
         @ [DestinationComplete]
   \<and> (\<not> isStopped s \<longrightarrow>
        contexts (complete s) = None
        \<and> calls (complete s) =
            calls s @ concat (map (\<lambda>c. [WindowComplete (window c), Unsubscribe (subscription c)]) (active s))
              @ [DestinationComplete])"
    by (simp add: complete_def contexts_protected_complete calls_protected_complete active_def)
  from shape rest show ?thesis by (rule conjI)
qed

theorem complete_tears_down_in_order_witness:
  "\<not> isStopped two_open
   \<and> contexts (complete two_open) = None
   \<and> calls (complete two_open) =
       [WindowComplete (Subject 0), Unsubscribe (Subscription 0),
        WindowComplete (Subject 1), Unsubscribe (Subscription 1),
        DestinationComplete]"
  using complete_tears_down_in_order [of two_open]
  by (simp add: two_open_def active_def context0_def context1_def)

text \<open>
  Claim C7. \<^verbatim>\<open>_unsubscribe\<close> sets \<^verbatim>\<open>contexts\<close> to the sentinel and, for every context
  that was active, in order, calls \<^verbatim>\<open>window.unsubscribe()\<close> (not \<^verbatim>\<open>complete\<close>) and
  \<^verbatim>\<open>subscription.unsubscribe()\<close>; these are the only calls it makes, so the downstream
  consumer is not notified. Cancelling a coordinator that is not closed runs it.
\<close>

theorem unsubscribe_cancels_windows_silently:
  "protected_unsubscribe s = unsubscribe_loop (active s) (s\<lparr>contexts := None\<rparr>)
   \<and> contexts (protected_unsubscribe s) = None
   \<and> calls (protected_unsubscribe s) =
       calls s @ concat (map (\<lambda>c. [WindowUnsubscribe (window c), Unsubscribe (subscription c)]) (active s))
   \<and> (\<not> closed s \<longrightarrow>
        contexts (unsubscribe s) = None
        \<and> calls (unsubscribe s) =
            calls s @ concat (map (\<lambda>c. [WindowUnsubscribe (window c), Unsubscribe (subscription c)]) (active s)))"
proof -
  have shape: "protected_unsubscribe s = unsubscribe_loop (active s) (s\<lparr>contexts := None\<rparr>)"
    by (simp add: protected_unsubscribe_def active_def split: option.splits)
  have rest: "contexts (protected_unsubscribe s) = None
   \<and> calls (protected_unsubscribe s) =
       calls s @ concat (map (\<lambda>c. [WindowUnsubscribe (window c), Unsubscribe (subscription c)]) (active s))
   \<and> (\<not> closed s \<longrightarrow>
        contexts (unsubscribe s) = None
        \<and> calls (unsubscribe s) =
            calls s @ concat (map (\<lambda>c. [WindowUnsubscribe (window c), Unsubscribe (subscription c)]) (active s)))"
    by (simp add: protected_unsubscribe_eq unsubscribe_eq)
  from shape rest show ?thesis by (rule conjI)
qed

theorem unsubscribe_cancels_windows_silently_witness:
  "\<not> closed two_open
   \<and> contexts (unsubscribe two_open) = None
   \<and> calls (unsubscribe two_open) =
       [WindowUnsubscribe (Subject 0), Unsubscribe (Subscription 0),
        WindowUnsubscribe (Subject 1), Unsubscribe (Subscription 1)]"
  using unsubscribe_cancels_windows_silently [of two_open]
  by (simp add: two_open_def active_def context0_def context1_def)

text \<open>
  After the constructor, the completion of the openings stream changes nothing: the state
  is returned as it is. The completion of a closing notifier whose inner subscription has
  been tagged (line 172) closes the window of that context: the context is removed from the
  active set, its window is completed and its handle cancelled; when the context is no
  longer in the set nothing happens.
\<close>

lemma notifyComplete_after_construction:
  assumes "openSubscription s = Some OpenSubscription"
  shows "notifyComplete OpenSubscription s = Inr s
   \<and> (contexts s = Some cs \<and> c \<in> set cs \<longrightarrow>
        notifyComplete (ClosingSubscription (Some c)) s =
          Inr (s\<lparr>contexts := Some (remove1 c cs), array := remove1 c cs,
                 calls := calls s @ [WindowComplete (window c), Unsubscribe (subscription c)]\<rparr>))
   \<and> (contexts s = Some cs \<and> c \<notin> set cs \<longrightarrow>
        notifyComplete (ClosingSubscription (Some c)) s = Inr s)"
proof -
  have "contexts s = Some cs \<longrightarrow> notifyComplete (ClosingSubscription (Some c)) s = closingNext c s"
    using assms by (simp add: notifyComplete_def closingNext_def)
  then show ?thesis
    using assms by (auto simp: closingNext_present closingNext_absent notifyComplete_def)
qed

text \<open>
  Claim C8 says that the completion of a closing notifier closes exactly the context tagged
  at its subscribe time. The code does not when the completion arrives during the
  notifier's own subscription. Line 172 has not yet assigned the \<^verbatim>\<open>context\<close> property, so
  \<^verbatim>\<open>notifyComplete\<close> looks up \<^verbatim>\<open>undefined\<close> and closes nothing, also when the context of
  the notifier is in the set (first statement). With one window open (context 0) and a
  notifier that emits a value during its subscription, the value closes the new context 1
  and context 0 stays open (second statement); when the notifier also completes, the handle
  comes back closed and line 170 closes context 0, which belongs to another opening (third
  statement).
\<close>

theorem notifier_completion_closes_other_context:
  "notifyComplete (ClosingSubscription None) two_open = Inr two_open
   \<and> notifyNext (\<lambda>x::nat. Inr emits_only) Openings 0 one_open =
       Inr (one_open\<lparr>contexts := Some [context0], array := [context0], allocated := 2,
              calls := [WindowComplete (Subject 1), Unsubscribe (Subscription 1),
                        Add (Subscription 1) context1, DestinationNext (Subject 1)]\<rparr>)
   \<and> notifyNext (\<lambda>x::nat. Inr emits_then_completes) Openings 0 one_open =
       Inr (one_open\<lparr>contexts := Some [], array := [], allocated := 2,
              calls := [WindowComplete (Subject 1), Unsubscribe (Subscription 1),
                        WindowComplete (Subject 0), Unsubscribe (Subscription 0),
                        DestinationNext (Subject 1)]\<rparr>)"
  by (simp add: notifyNext_def one_open_def two_open_def emits_only_def emits_then_completes_def
        context0_def context1_def closingNext_def closeWindow_def notifyComplete_def perform_def
        splice1_def Let_def)

text \<open>
  While line 90 subscribes, \<^verbatim>\<open>openSubscription\<close> is still \<^verbatim>\<open>undefined\<close>: a completion of
  the openings stream arriving then takes the branch of the closing notifiers. It finds
  nothing to close, and it throws when \<^verbatim>\<open>contexts\<close> is already \<^verbatim>\<open>null\<close>, here after a
  fault of the closing selector on a value sent during the same subscription.
\<close>

lemma openings_completion_during_construction:
  "(constructor (\<lambda>x::nat. Inr never_closes) [OpeningsComplete] :: (nat, string) outcome) = Inr initial
   \<and> (constructor (\<lambda>x::nat. Inl ''boom'') [OpeningsNext 0, OpeningsComplete] :: (nat, string) outcome) =
       Inl (TypeError,
            constructing\<lparr>contexts := None, isStopped := True, closed := True,
              calls := [DestinationError ''boom'']\<rparr>)"
  by (simp add: constructor_def constructing_def initial_def notifyNext_def notifyComplete_def
        closeWindow_def error_def protected_error_eq unsubscribe_eq active_def)

text \<open>
  Claim C10. \<^verbatim>\<open>closeWindow(-1)\<close> changes nothing. \<^verbatim>\<open>closeWindow(index)\<close> with an index
  inside the array removes the context at that index and no other (the contexts before and
  after it stay, in their order, and the set is one shorter), and its only calls are
  \<^verbatim>\<open>complete\<close> on that context's window and \<^verbatim>\<open>unsubscribe\<close> on that context's handle.
  The indices the class passes, \<^verbatim>\<open>contexts.indexOf(...)\<close> and \<^verbatim>\<open>contexts.length - 1\<close>,
  are \<open>-1\<close> or inside the array.
\<close>

theorem closeWindow_frame:
  "closeWindow (- 1) s = Inr s
   \<and> (contexts s = Some cs \<and> 0 \<le> i \<and> i < int (length cs) \<longrightarrow>
        closeWindow i s =
          Inr (s\<lparr>contexts := Some (take (nat i) cs @ drop (Suc (nat i)) cs),
                 array := take (nat i) cs @ drop (Suc (nat i)) cs,
                 calls := calls s @ [WindowComplete (window (cs ! nat i)),
                                      Unsubscribe (subscription (cs ! nat i))]\<rparr>)
        \<and> length (take (nat i) cs @ drop (Suc (nat i)) cs) = length cs - 1)
   \<and> (indexOf cs c = - 1 \<or> (0 \<le> indexOf cs c \<and> indexOf cs c < int (length cs)))
   \<and> (int (length cs) - 1 = - 1 \<or> (0 \<le> int (length cs) - 1 \<and> int (length cs) - 1 < int (length cs)))"
proof -
  have "contexts s = Some cs \<and> 0 \<le> i \<and> i < int (length cs) \<longrightarrow>
        closeWindow i s =
          Inr (s\<lparr>contexts := Some (take (nat i) cs @ drop (Suc (nat i)) cs),
                 array := take (nat i) cs @ drop (Suc (nat i)) cs,
                 calls := calls s @ [WindowComplete (window (cs ! nat i)),
                                      Unsubscribe (subscription (cs ! nat i))]\<rparr>)
        \<and> length (take (nat i) cs @ drop (Suc (nat i)) cs) = length cs - 1"
    using closeWindow_in_range [of s cs i] by (auto simp: splice1_def)
  moreover have "int (length cs) - 1 = - 1 \<or> (0 \<le> int (length cs) - 1 \<and> int (length cs) - 1 < int (length cs))"
    by (cases cs) simp_all
  ultimately show ?thesis
    using indexOf_range [of cs c] by (simp add: closeWindow_none)
qed

theorem closeWindow_frame_witness:
  "closeWindow (- 1) two_open = Inr two_open
   \<and> contexts two_open = Some [context0, context1] \<and> (0::int) \<le> 0 \<and> (0::int) < int (length [context0, context1])
   \<and> closeWindow 0 two_open =
       Inr (two_open\<lparr>contexts := Some [context1], array := [context1],
              calls := [WindowComplete (Subject 0), Unsubscribe (Subscription 0)]\<rparr>)"
  using closeWindow_frame [of two_open "[context0, context1]" 0 context0]
  by (simp add: two_open_def context0_def context1_def)

text \<open>
  Claim C1 says that, when the handle returned for the closing notifier is already closed,
  \<^verbatim>\<open>notifyNext\<close> closes exactly the context created for this opening before it delivers
  the window downstream. The code does not, at this input: one window is open (context 0)
  and the closing notifier of the new opening emits a value and completes during its own
  subscription. The value closes the new window (context 1) through \<^verbatim>\<open>notifyNext\<close>, the
  handle comes back closed, and \<^verbatim>\<open>closeWindow(this.contexts.length - 1)\<close> then closes
  the window of context 0, which belongs to another opening, before the new window is
  delivered.
\<close>

theorem closed_handle_closes_another_window:
  "notifyNext (\<lambda>x::nat. Inr emits_then_completes) Openings 0 one_open =
     Inr \<lparr>contexts = Some [], array = [], openSubscription = Some OpenSubscription,
           isStopped = False, closed = False, allocated = 2,
           calls = [WindowComplete (Subject 1), Unsubscribe (Subscription 1),
                    WindowComplete (Subject 0), Unsubscribe (Subscription 0),
                    DestinationNext (Subject 1)]\<rparr>"
  by (simp add: notifyNext_def one_open_def emits_then_completes_def context0_def closingNext_def
        closeWindow_def notifyComplete_def perform_def splice1_def Let_def)

text \<open>
  With a closing notifier that fails during its own subscription, the Error transition sets
  \<^verbatim>\<open>contexts\<close> to \<^verbatim>\<open>null\<close>, the handle comes back closed, and
  \<^verbatim>\<open>this.contexts.length\<close> throws: the window is not delivered downstream.
\<close>

lemma closed_handle_after_fault_throws:
  "notifyNext (\<lambda>x::nat. Inr fails_at_once) Openings 0 one_open =
     Inl (TypeError,
          \<lparr>contexts = None, array = [context0, context1],
            openSubscription = Some OpenSubscription, isStopped = True, closed = True,
            allocated = 2,
            calls = [WindowError (Subject 0) ''boom'', Unsubscribe (Subscription 0),
                     WindowError (Subject 1) ''boom'', Unsubscribe (Subscription 1),
                     DestinationError ''boom'']\<rparr>)"
  by (simp add: notifyNext_def one_open_def fails_at_once_def context0_def context1_def
        notifyError_def error_def protected_error_eq unsubscribe_eq active_def Let_def)

text \<open>
  With a closing notifier that only completes during its own subscription, the window
  closed is the new one, and it is delivered downstream afterwards.
\<close>

lemma exhausted_notifier_closes_new_window:
  "notifyNext (\<lambda>x::nat. Inr already_complete) Openings 0 one_open =
     Inr \<lparr>contexts = Some [context0], array = [context0],
           openSubscription = Some OpenSubscription, isStopped = False, closed = False,
           allocated = 2,
           calls = [WindowComplete (Subject 1), Unsubscribe (Subscription 1),
                    DestinationNext (Subject 1)]\<rparr>"
  by (simp add: notifyNext_def one_open_def already_complete_def context0_def closingNext_def
        closeWindow_def notifyComplete_def perform_def splice1_def Let_def)

text \<open>
  In general, for a closing notifier that sends nothing during its own subscription, or
  only completes: with a closed handle the new context, and no other, is closed before the
  window is delivered downstream; with an open handle the context stays in the set, the
  inner subscription is tagged with it and added to its handle, and the window is delivered.
\<close>

lemma notifyNext_quiet_notifier:
  assumes sel: "closingSelector x = Inr notifier"
    and open_set: "contexts s = Some cs"
    and quiet: "synchronous notifier = [] \<or> synchronous notifier = [Complete]"
  shows "notifyNext closingSelector Openings x s =
     Inr (if closedAfterSubscribe notifier then
            s\<lparr>contexts := Some cs, array := cs, allocated := Suc (allocated s),
              calls := calls s @ [WindowComplete (Subject (allocated s)),
                                   Unsubscribe (Subscription (allocated s)),
                                   DestinationNext (Subject (allocated s))]\<rparr>
          else
            s\<lparr>contexts := Some (cs @ [new_context (allocated s)]),
              array := cs @ [new_context (allocated s)], allocated := Suc (allocated s),
              calls := calls s @ [Add (Subscription (allocated s)) (new_context (allocated s)),
                                   DestinationNext (Subject (allocated s))]\<rparr>)"
proof -
  define ctx where "ctx = new_context (allocated s)"
  define s1 where "s1 = s\<lparr>contexts := Some (cs @ [ctx]), array := cs @ [ctx],
                          allocated := Suc (allocated s)\<rparr>"
  have sub: "subscribeToResult (synchronous notifier) ctx s1 = Inr s1"
    using quiet by (auto simp: notifyComplete_def closeWindow_none s1_def)
  have last: "closeWindow (int (length (cs @ [ctx])) - 1) s1 =
      Inr (s1\<lparr>contexts := Some cs, array := cs,
             calls := calls s1 @ [WindowComplete (window ctx), Unsubscribe (subscription ctx)]\<rparr>)"
    using closeWindow_in_range [of s1 "cs @ [ctx]" "int (length cs)"]
    by (simp add: s1_def splice1_def)
  show ?thesis
    using sel open_set sub last
    by (simp add: notifyNext_def Let_def ctx_def [symmetric] new_context_def [symmetric]
          s1_def [symmetric])
       (simp add: s1_def ctx_def new_context_def perform_def)
qed

section \<open>The invariant of a run without re-entry\<close>

text \<open>
  The lemmas of this section lead to \<open>window_lifecycle_without_reentry\<close>: invariant I2
  holds over every run in which no notification reaches the coordinator while
  \<^verbatim>\<open>window.next\<close> runs.
\<close>

lemma nothing_after_snoc:
  "nothing_after final banned (cs @ [d]) \<longleftrightarrow>
     nothing_after final banned cs \<and> (list_ex final cs \<longrightarrow> \<not> banned d)"
  by (induction cs) auto

lemma all_allowed_nothing_after:
  "list_all (\<lambda>d. \<not> banned d) cs \<Longrightarrow> (\<And>d. final d \<Longrightarrow> banned d) \<Longrightarrow> nothing_after final banned cs"
  by (induction cs) auto

lemma nothing_after_weaken:
  assumes "nothing_after final banned cs"
    and "\<And>d. final' d \<Longrightarrow> final d"
    and "\<And>d. banned' d \<Longrightarrow> banned d"
    and "\<And>d. final' d \<Longrightarrow> banned' d"
  shows "nothing_after final' banned' cs"
  using assms(1)
proof (induction cs)
  case Nil
  then show ?case by simp
next
  case (Cons d ds)
  show ?case
  proof (cases "final d")
    case True
    with Cons.prems have "list_all (\<lambda>d'. \<not> banned d') ds" by simp
    then have quiet: "list_all (\<lambda>d'. \<not> banned' d') ds"
      using assms(3) by (auto simp: list_all_iff)
    then show ?thesis
      using all_allowed_nothing_after [OF quiet assms(4)] by simp
  next
    case False
    with Cons.prems have "nothing_after final banned ds" by simp
    from Cons.IH [OF this] False assms(2) show ?thesis by auto
  qed
qed

lemma sealed_lifecycle_ok: "sealed w cs \<Longrightarrow> lifecycle_ok w cs"
  unfolding sealed_def lifecycle_ok_def
proof (rule nothing_after_weaken)
  fix d :: "('a, 'b) call"
  show "ended_by w d \<Longrightarrow> terminal d \<and> sink_of d = Some w" by (cases d) auto
  show "ended_by w d \<or> next_on w d \<Longrightarrow> sink_of d = Some w" by (cases d) auto
  show "ended_by w d \<Longrightarrow> ended_by w d \<or> next_on w d" by simp
qed

lemma sealed_snoc:
  "sealed w (cs @ [d]) \<longleftrightarrow> sealed w cs \<and> (terminated w cs \<longrightarrow> sink_of d \<noteq> Some w)"
  by (simp add: sealed_def terminated_def nothing_after_snoc)

lemma terminated_snoc:
  "terminated w (cs @ [d]) \<longleftrightarrow> terminated w cs \<or> (terminal d \<and> sink_of d = Some w)"
  by (auto simp: terminated_def list_ex_iff)

lemma window_new_context [simp]: "window (new_context n) = Subject n"
  by (simp add: new_context_def)

lemma new_context_inject [simp]: "new_context m = new_context n \<longleftrightarrow> m = n"
  by (simp add: new_context_def)

lemma consistent_silent:
  assumes "consistent live n cs" and "sink_of d = None"
  shows "consistent live n (cs @ [d])"
  using assms by (auto simp: consistent_def sealed_snoc terminated_snoc)

lemma consistent_next:
  assumes "consistent live n cs" and "c \<in> set live"
  shows "consistent live n (cs @ [WindowNext (window c) v])"
proof -
  from assms have "\<not> terminated (window c) cs" by (simp add: consistent_def)
  moreover from assms have "window c \<in> Subject ` {..<n}" by (auto simp: consistent_def)
  ultimately show ?thesis
    using assms(1) by (auto simp: consistent_def sealed_snoc terminated_snoc)
qed

lemma consistent_end:
  assumes ok: "consistent live n cs"
    and c: "c \<in> set live"
    and d: "terminal d" "sink_of d = Some (window c)"
    and live': "set live' = set live - {c}" "distinct (map window live')"
  shows "consistent live' n (cs @ [d])"
proof -
  from ok c have fresh: "\<not> terminated (window c) cs" by (simp add: consistent_def)
  from ok c obtain k where k: "k < n" "c = new_context k" by (auto simp: consistent_def)
  from ok have dist: "distinct (map window live)" by (simp add: consistent_def)
  have others: "window c' \<noteq> window c" if "c' \<in> set live'" for c'
  proof -
    from that live' have "c' \<in> set live" "c' \<noteq> c" by auto
    with c dist show ?thesis by (auto simp: distinct_map inj_on_def)
  qed
  have "set live' \<subseteq> new_context ` {..<n}"
    using ok live' by (auto simp: consistent_def)
  moreover have "\<forall>c' \<in> set live'. \<not> terminated (window c') (cs @ [d])"
  proof
    fix c' assume in_live': "c' \<in> set live'"
    with live' have "c' \<in> set live" by simp
    with ok have "\<not> terminated (window c') cs" by (simp add: consistent_def)
    moreover from others [OF in_live'] d have "sink_of d \<noteq> Some (window c')" by simp
    ultimately show "\<not> terminated (window c') (cs @ [d])" by (simp add: terminated_snoc)
  qed
  moreover have "\<forall>j < n. new_context j \<notin> set live' \<longrightarrow> terminated (Subject j) (cs @ [d])"
  proof (intro allI impI)
    fix j assume j: "j < n" "new_context j \<notin> set live'"
    show "terminated (Subject j) (cs @ [d])"
    proof (cases "j = k")
      case True
      with d k show ?thesis by (simp add: terminated_snoc)
    next
      case False
      with j live' k have "new_context j \<notin> set live" by auto
      with ok j show ?thesis by (simp add: consistent_def terminated_snoc)
    qed
  qed
  moreover have "\<forall>d' \<in> set (cs @ [d]). \<forall>w. sink_of d' = Some w \<longrightarrow> w \<in> Subject ` {..<n}"
    using ok d k by (auto simp: consistent_def)
  moreover have "\<forall>w. sealed w (cs @ [d])"
    using ok fresh d by (auto simp: consistent_def sealed_snoc)
  ultimately show ?thesis using live' by (simp add: consistent_def)
qed

lemma consistent_register:
  assumes "consistent live n cs"
  shows "consistent (live @ [new_context n]) (Suc n) cs"
proof -
  have new: "Subject n \<notin> window ` set live"
    using assms by (auto simp: consistent_def)
  have quiet: "\<not> terminated (Subject n) cs"
    using assms by (auto simp: consistent_def terminated_def list_ex_iff)
  have "distinct (map window (live @ [new_context n]))"
    using assms new by (simp add: consistent_def)
  moreover have "set (live @ [new_context n]) \<subseteq> new_context ` {..<Suc n}"
    using assms by (auto simp: consistent_def lessThan_Suc)
  moreover have "\<forall>c \<in> set (live @ [new_context n]). \<not> terminated (window c) cs"
    using assms quiet by (auto simp: consistent_def)
  moreover have "\<forall>k < Suc n. new_context k \<notin> set (live @ [new_context n]) \<longrightarrow> terminated (Subject k) cs"
    using assms by (auto simp: consistent_def less_Suc_eq)
  moreover have "\<forall>d \<in> set cs. \<forall>w. sink_of d = Some w \<longrightarrow> w \<in> Subject ` {..<Suc n}"
    using assms by (fastforce simp: consistent_def lessThan_Suc)
  moreover have "\<forall>w. sealed w cs"
    using assms by (simp add: consistent_def)
  ultimately show ?thesis by (simp add: consistent_def)
qed

lemma consistent_fan_out:
  "consistent live n cs \<Longrightarrow> set xs \<subseteq> set live \<Longrightarrow>
     consistent live n (cs @ map (\<lambda>c. WindowNext (window c) v) xs)"
proof (induction xs arbitrary: cs)
  case Nil
  then show ?case by simp
next
  case (Cons x xs)
  from Cons.prems have "consistent live n (cs @ [WindowNext (window x) v])"
    by (simp add: consistent_next)
  from Cons.IH [OF this] Cons.prems show ?case by simp
qed

lemma consistent_teardown:
  assumes T: "\<And>w. terminal (T w) \<and> sink_of (T w) = Some w"
  shows "consistent live n cs \<Longrightarrow>
     consistent [] n (cs @ concat (map (\<lambda>c. [T (window c), Unsubscribe (subscription c)]) live))"
proof (induction live arbitrary: cs)
  case Nil
  then show ?case by simp
next
  case (Cons c rest)
  from Cons.prems have dist: "distinct (map window (c # rest))" by (simp add: consistent_def)
  then have "c \<notin> set rest" by auto
  then have rest: "set rest = set (c # rest) - {c}" by auto
  from dist have dist': "distinct (map window rest)" by simp
  have "consistent rest n (cs @ [T (window c)])"
    using Cons.prems T rest dist' by (intro consistent_end [where c = c and live = "c # rest"]) simp_all
  then have "consistent rest n ((cs @ [T (window c)]) @ [Unsubscribe (subscription c)])"
    by (rule consistent_silent) simp
  from Cons.IH [OF this] show ?case by simp
qed

lemma state_of_fault [simp]: "state_of (Inl (f, s)) = s"
  by (simp add: state_of_def)

lemma state_of_result [simp]: "state_of (Inr s) = s"
  by (simp add: state_of_def)

lemma coherent_consistent: "coherent s \<Longrightarrow> consistent (active s) (allocated s) (calls s)"
  by (simp add: coherent_def)

lemma coherent_live: "coherent s \<Longrightarrow> contexts s = Some cs \<Longrightarrow> consistent cs (allocated s) (calls s)"
  by (auto simp: coherent_def active_def)

lemma coherent_array: "coherent s \<Longrightarrow> contexts s = Some cs \<Longrightarrow> array s = cs"
  by (auto simp: coherent_def)

lemma coherent_torn_down:
  "consistent [] (allocated s) (calls s) \<Longrightarrow> contexts s = None \<Longrightarrow> coherent s"
  by (simp add: coherent_def active_def)

lemma coherent_running:
  "consistent cs (allocated s) (calls s) \<Longrightarrow> contexts s = Some cs \<Longrightarrow> array s = cs \<Longrightarrow> coherent s"
  by (simp add: coherent_def active_def)

lemma coherent_perform_silent: "coherent s \<Longrightarrow> sink_of d = None \<Longrightarrow> coherent (perform d s)"
  by (auto simp: coherent_def perform_def active_def consistent_silent)

lemma coherent_protected_next:
  assumes quiet: "\<And>w. react w v = []" and ok: "coherent s"
  shows "coherent (state_of (protected_next sel react v s))"
proof (cases "contexts s")
  case None
  with ok show ?thesis by (simp add: protected_next_def)
next
  case (Some cs)
  from ok Some have arr: "array s = cs" by (rule coherent_array)
  from coherent_live [OF ok Some]
  have "consistent cs (allocated s) (calls s @ map (\<lambda>c. WindowNext (window c) v) cs)"
    by (simp add: consistent_fan_out)
  then have "coherent (s\<lparr>calls := calls s @ map (\<lambda>c. WindowNext (window c) v) cs\<rparr>)"
    using Some arr by (intro coherent_running [where cs = cs]) simp_all
  moreover have "next_loop sel react v 0 (length cs) s =
      Inr (s\<lparr>calls := calls s @ map (\<lambda>c. WindowNext (window c) v) cs\<rparr>)"
    using next_loop_quiet [where react = react and v = v and len = "length cs" and s = s and i = 0
        and sel = sel] quiet arr
    by simp
  ultimately show ?thesis using Some by (simp add: protected_next_def)
qed

lemma coherent_next:
  "(\<And>w. react w v = []) \<Longrightarrow> coherent s \<Longrightarrow> coherent (state_of (next sel react v s))"
  by (simp add: next_def coherent_protected_next)

lemma coherent_unsubscribe: "coherent s \<Longrightarrow> coherent (unsubscribe s)"
proof (cases "closed s")
  case True
  assume "coherent s"
  with True show ?thesis by (simp add: unsubscribe_def)
next
  case False
  assume "coherent s"
  then have "consistent (active s) (allocated s) (calls s)" by (rule coherent_consistent)
  then have "consistent [] (allocated s)
      (calls s @ concat (map (\<lambda>c. [WindowUnsubscribe (window c), Unsubscribe (subscription c)]) (active s)))"
    by (intro consistent_teardown) simp_all
  with False show ?thesis
    by (intro coherent_torn_down) (simp_all add: unsubscribe_eq)
qed

lemma allocated_protected_complete: "allocated (protected_complete s) = allocated s"
  by (simp add: protected_complete_eq unsubscribe_torn_down)

lemma coherent_error: "coherent s \<Longrightarrow> coherent (error err s)"
proof (cases "isStopped s")
  case True
  assume "coherent s"
  with True show ?thesis by (simp add: error_def)
next
  case False
  assume "coherent s"
  then have "consistent (active s) (allocated s) (calls s)" by (rule coherent_consistent)
  then have "consistent [] (allocated s)
      (calls s @ concat (map (\<lambda>c. [WindowError (window c) err, Unsubscribe (subscription c)]) (active s)))"
    by (intro consistent_teardown) simp_all
  then have "consistent [] (allocated s)
      ((calls s @ concat (map (\<lambda>c. [WindowError (window c) err, Unsubscribe (subscription c)]) (active s)))
        @ [DestinationError err])"
    by (rule consistent_silent) simp
  then show ?thesis
    by (intro coherent_torn_down)
       (simp_all add: active_def error_running [OF False] contexts_protected_error
          allocated_protected_error calls_protected_error)
qed

lemma coherent_complete: "coherent s \<Longrightarrow> coherent (complete s)"
proof (cases "isStopped s")
  case True
  assume "coherent s"
  with True show ?thesis by (simp add: complete_def)
next
  case False
  assume "coherent s"
  then have "consistent (active s) (allocated s) (calls s)" by (rule coherent_consistent)
  then have "consistent [] (allocated s)
      (calls s @ concat (map (\<lambda>c. [WindowComplete (window c), Unsubscribe (subscription c)]) (active s)))"
    by (intro consistent_teardown) simp_all
  then have "consistent [] (allocated s)
      ((calls s @ concat (map (\<lambda>c. [WindowComplete (window c), Unsubscribe (subscription c)]) (active s)))
        @ [DestinationComplete])"
    by (rule consistent_silent) simp
  then show ?thesis
    by (intro coherent_torn_down)
       (simp_all add: active_def complete_running [OF False] contexts_protected_complete
          allocated_protected_complete calls_protected_complete)
qed

lemma distinct_splice1: "distinct xs \<Longrightarrow> distinct (splice1 xs i)"
  using set_take_disj_set_drop_if_distinct [of xs i "Suc i"]
  by (simp add: splice1_def)

lemma map_splice1: "map f (splice1 xs i) = splice1 (map f xs) i"
  by (simp add: splice1_def take_map drop_map)

lemma coherent_closeWindow: "coherent s \<Longrightarrow> coherent (state_of (closeWindow i s))"
proof -
  assume ok: "coherent s"
  show ?thesis
  proof (cases "contexts s")
    case None
    with ok show ?thesis by (simp add: closeWindow_def state_of_def)
  next
    case (Some cs)
    show ?thesis
    proof (cases "0 \<le> i \<and> i < int (length cs)")
      case False
      with Some have "state_of (closeWindow i s) = s"
        by (auto simp: closeWindow_def state_of_def)
      with ok show ?thesis by simp
    next
      case True
      define c where "c = cs ! nat i"
      from True have i: "nat i < length cs" by linarith
      from coherent_live [OF ok Some] have dist: "distinct (map window cs)" by (simp add: consistent_def)
      then have dist_cs: "distinct cs" by (simp add: distinct_map)
      from i have c_in: "c \<in> set cs" by (simp add: c_def)
      have "consistent (splice1 cs (nat i)) (allocated s) (calls s @ [WindowComplete (window c)])"
      proof (rule consistent_end [where c = c and live = cs])
        from ok Some show "consistent cs (allocated s) (calls s)" by (rule coherent_live)
        show "c \<in> set cs" by (rule c_in)
        show "terminal (WindowComplete (window c))" by simp
        show "sink_of (WindowComplete (window c)) = Some (window c)" by simp
        show "set (splice1 cs (nat i)) = set cs - {c}"
          unfolding c_def using dist_cs i by (rule set_splice1)
        show "distinct (map window (splice1 cs (nat i)))"
          using dist by (simp add: map_splice1 distinct_splice1)
      qed
      then have "consistent (splice1 cs (nat i)) (allocated s)
          ((calls s @ [WindowComplete (window c)]) @ [Unsubscribe (subscription c)])"
        by (rule consistent_silent) simp
      with Some True show ?thesis
        by (intro coherent_running [where cs = "splice1 cs (nat i)"])
           (simp_all add: closeWindow_in_range c_def)
    qed
  qed
qed

lemma coherent_closingNext: "coherent s \<Longrightarrow> coherent (state_of (closingNext c s))"
  by (cases "contexts s") (simp_all add: closingNext_def coherent_closeWindow)

lemma coherent_notifyError: "coherent s \<Longrightarrow> coherent (notifyError err s)"
  by (simp add: notifyError_def coherent_error)

lemma coherent_notifyComplete: "coherent s \<Longrightarrow> coherent (state_of (notifyComplete inner s))"
  by (cases "contexts s") (simp_all add: notifyComplete_def coherent_closeWindow)

lemma coherent_subscribeToResult:
  "coherent s \<Longrightarrow> coherent (state_of (subscribeToResult ns c s))"
proof (induction ns c s rule: subscribeToResult.induct)
  case (1 ctx s)
  then show ?case by simp
next
  case (2 rest ctx s)
  show ?case
  proof (cases "closingNext ctx s")
    case (Inl f)
    with coherent_closingNext [OF "2.prems", of ctx] show ?thesis
      by (cases f) simp
  next
    case (Inr s')
    with coherent_closingNext [OF "2.prems", of ctx] have "coherent s'" by simp
    from "2.IH" [OF Inr this] Inr show ?thesis by simp
  qed
next
  case (3 err rest ctx s)
  then show ?case by (simp add: coherent_notifyError)
next
  case (4 rest ctx s)
  then show ?case by (simp add: coherent_notifyComplete)
qed

lemma coherent_register:
  assumes "coherent s" and "contexts s = Some cs"
  shows "coherent (s\<lparr>contexts := Some (cs @ [\<lparr>window = Subject (allocated s), subscription = Subscription (allocated s)\<rparr>]),
               array := cs @ [\<lparr>window = Subject (allocated s), subscription = Subscription (allocated s)\<rparr>],
               allocated := Suc (allocated s)\<rparr>)"
  using consistent_register [OF coherent_live [OF assms]]
  by (intro coherent_running [where cs = "cs @ [new_context (allocated s)]"])
     (simp_all add: new_context_def)

lemma coherent_notifyNext: "coherent s \<Longrightarrow> coherent (state_of (notifyNext sel tag x s))"
proof -
  assume ok: "coherent s"
  show ?thesis
  proof (cases tag)
    case (Tagged c)
    with ok show ?thesis by (simp add: notifyNext_def coherent_closingNext)
  next
    case Openings
    show ?thesis
    proof (cases "sel x")
      case (Inl e)
      with ok Openings show ?thesis by (simp add: notifyNext_def coherent_error)
    next
      case (Inr notifier)
      show ?thesis
      proof (cases "contexts s")
        case None
        with ok Openings Inr show ?thesis by (simp add: notifyNext_def)
      next
        case (Some cs)
        define ctx where "ctx = \<lparr>window = Subject (allocated s), subscription = Subscription (allocated s)\<rparr>"
        define s1 where "s1 = s\<lparr>contexts := Some (cs @ [ctx]), array := cs @ [ctx],
                                allocated := Suc (allocated s)\<rparr>"
        define r2 where "r2 = subscribeToResult (synchronous notifier) ctx s1"
        have ok1: "coherent s1" unfolding s1_def ctx_def using ok Some by (rule coherent_register)
        then have ok2: "coherent (state_of r2)" unfolding r2_def by (rule coherent_subscribeToResult)
        have unfold: "notifyNext sel tag x s =
            (case r2 of
               Inl f \<Rightarrow> Inl f
             | Inr s2 \<Rightarrow>
                 (case (if closedAfterSubscribe notifier then
                          (case contexts s2 of
                             None \<Rightarrow> Inl (TypeError, s2)
                           | Some cs2 \<Rightarrow> closeWindow (int (length cs2) - 1) s2)
                        else Inr (perform (Add (subscription ctx) ctx) s2)) of
                    Inl f \<Rightarrow> Inl f
                  | Inr s3 \<Rightarrow> Inr (perform (DestinationNext (window ctx)) s3)))"
          unfolding notifyNext_def Let_def r2_def s1_def ctx_def Openings Inr Some
          by (simp only: outerValue.case sum.case option.case)
        show ?thesis
        proof (cases r2)
          case (Inl f)
          with ok2 unfold show ?thesis by (cases f) simp
        next
          case r2: (Inr s2)
          with ok2 have ok_s2: "coherent s2" by simp
          define r3 where "r3 = (if closedAfterSubscribe notifier then
                          (case contexts s2 of
                             None \<Rightarrow> Inl (TypeError, s2)
                           | Some cs2 \<Rightarrow> closeWindow (int (length cs2) - 1) s2)
                        else Inr (perform (Add (subscription ctx) ctx) s2))"
          have ok3: "coherent (state_of r3)"
            unfolding r3_def using ok_s2
            by (cases "contexts s2") (simp_all add: coherent_closeWindow coherent_perform_silent)
          show ?thesis
          proof (cases r3)
            case (Inl f)
            with ok3 unfold r2 show ?thesis by (cases f) (simp add: r3_def [symmetric])
          next
            case (Inr s3)
            with ok3 have "coherent s3" by simp
            then have "coherent (perform (DestinationNext (window ctx)) s3)"
              by (rule coherent_perform_silent) simp
            with unfold r2 Inr show ?thesis by (simp add: r3_def [symmetric])
          qed
        qed
      qed
    qed
  qed
qed

lemma coherent_deliver: "coherent s \<Longrightarrow> coherent (state_of (deliver sel x s))"
  by (cases x)
     (simp_all add: coherent_error coherent_complete coherent_unsubscribe coherent_notifyNext
        coherent_notifyError coherent_notifyComplete coherent_closingNext)

lemma coherent_dispatch:
  "(\<And>w v. react w v = []) \<Longrightarrow> coherent s \<Longrightarrow> coherent (state_of (dispatch sel react i s))"
  by (cases i) (simp_all add: coherent_next coherent_deliver)

lemma coherent_run:
  "(\<And>w v. react w v = []) \<Longrightarrow> coherent s \<Longrightarrow> coherent (run sel react inputs s)"
  by (induction inputs arbitrary: s) (simp_all add: coherent_dispatch)

lemma coherent_initial: "coherent initial"
  by (simp add: coherent_def initial_def active_def consistent_def sealed_def terminated_def)

text \<open>
  After any run from the initial state in which no notification reaches the coordinator
  while \<^verbatim>\<open>window.next\<close> runs, for every window: once it has received \<^verbatim>\<open>complete\<close> or
  \<^verbatim>\<open>unsubscribe\<close> it receives neither of the two again and no \<^verbatim>\<open>next\<close>. A registered
  context is in the active set exactly when its window has received no terminal call
  (\<^verbatim>\<open>error\<close>, \<^verbatim>\<open>complete\<close> or \<^verbatim>\<open>unsubscribe\<close>); the active set holds registered
  contexts only, with distinct windows.
\<close>

lemma window_lifecycle_without_reentry:
  assumes quiet: "\<And>w v. react w v = []"
  shows "(\<forall>w. lifecycle_ok w (calls (run sel react inputs initial)))
   \<and> (\<forall>c \<in> set (created (run sel react inputs initial)).
         (c \<in> set (active (run sel react inputs initial)))
           = (\<not> terminated (window c) (calls (run sel react inputs initial))))
   \<and> set (active (run sel react inputs initial)) \<subseteq> set (created (run sel react inputs initial))
   \<and> distinct (map window (active (run sel react inputs initial)))"
proof -
  define r where "r = run sel react inputs initial"
  have "coherent r" unfolding r_def using quiet coherent_initial by (rule coherent_run)
  then have ok: "consistent (active r) (allocated r) (calls r)" by (simp add: coherent_def)
  have created: "set (created r) = new_context ` {..<allocated r}"
    by (auto simp: created_def)
  have a: "\<forall>w. lifecycle_ok w (calls r)"
    using ok by (simp add: consistent_def sealed_lifecycle_ok)
  have b: "\<forall>c \<in> set (created r). (c \<in> set (active r)) = (\<not> terminated (window c) (calls r))"
    using ok unfolding created consistent_def by auto
  have c: "set (active r) \<subseteq> set (created r)"
    using ok unfolding created consistent_def by simp
  have d: "distinct (map window (active r))"
    using ok by (simp add: consistent_def)
  from a b c d show ?thesis unfolding r_def by blast
qed

section \<open>The lifecycle of a window over a run\<close>

text \<open>
  Claim C2 says that, over any run, a window that has received \<^verbatim>\<open>complete\<close> or
  \<^verbatim>\<open>unsubscribe\<close> receives no \<^verbatim>\<open>next\<close> afterwards. The code does not keep this, at this
  run: two openings, then a source value on which a subscriber of window 0 cancels
  downstream while \<^verbatim>\<open>window.next\<close> runs. \<^verbatim>\<open>_unsubscribe\<close> sets the field to \<^verbatim>\<open>null\<close> and
  unsubscribes both windows; the array the loop of \<^verbatim>\<open>_next\<close> has captured still holds
  both contexts, and the loop goes on to call \<^verbatim>\<open>next\<close> on window 1 after its
  \<^verbatim>\<open>unsubscribe\<close>.
\<close>

theorem window_next_after_unsubscribe:
  "calls (run (\<lambda>x::nat. Inr never_closes) cancels_downstream
            [Other (OpeningsNext 0), Other (OpeningsNext 1), SourceNext 5] initial) =
     [Add (Subscription 0) context0, DestinationNext (Subject 0),
      Add (Subscription 1) context1, DestinationNext (Subject 1),
      WindowNext (Subject 0) 5,
      WindowUnsubscribe (Subject 0), Unsubscribe (Subscription 0),
      WindowUnsubscribe (Subject 1), Unsubscribe (Subscription 1),
      WindowNext (Subject 1) 5]
   \<and> \<not> lifecycle_ok (Subject 1)
         (calls (run (\<lambda>x::nat. Inr never_closes) cancels_downstream
                   [Other (OpeningsNext 0), Other (OpeningsNext 1), SourceNext 5] initial))"
proof -
  have run: "calls (run (\<lambda>x::nat. Inr never_closes) cancels_downstream
            [Other (OpeningsNext 0), Other (OpeningsNext 1), SourceNext 5] initial) =
     [Add (Subscription 0) context0, DestinationNext (Subject 0),
      Add (Subscription 1) context1, DestinationNext (Subject 1),
      WindowNext (Subject 0) 5,
      WindowUnsubscribe (Subject 0), Unsubscribe (Subscription 0),
      WindowUnsubscribe (Subject 1), Unsubscribe (Subscription 1),
      WindowNext (Subject 1) 5]"
    by (simp add: initial_def never_closes_def cancels_downstream_def context0_def context1_def
          notifyNext_def next_def protected_next_def next_loop_step next_loop_done
          unsubscribe_eq active_def perform_def Let_def)
  show ?thesis
    unfolding run by (simp add: lifecycle_ok_def context0_def context1_def)
qed

end
